theory Spec2Isabelle
  imports Main
begin

section \<open>Calendar dates: the part of \<open>datetime.date\<close> the scripts use\<close>

text \<open>
  The scripts handle values of Python's \<open>datetime.date\<close>. Such a value is represented
  here by its proleptic Gregorian ordinal (\<open>date.toordinal()\<close>): day 1 is 0001-01-01
  (\<open>date.min\<close>) and day 3652059 is 9999-12-31 (\<open>date.max\<close>). The library defines
  \<open>weekday()\<close> and the arithmetic with \<open>timedelta\<close> through the ordinal. The fields
  \<open>month\<close> and \<open>day\<close> are read back from the ordinal with the library's own
  conversion \<open>_ord2ymd\<close>, transcribed below with the helpers it needs (Python's
  \<open>divmod\<close> on integers is floor division, as \<open>div\<close> and \<open>mod\<close> on \<open>int\<close> are).
  Date objects compare by year, month and day; \<open>date_order_is_ymd_order\<close> below shows
  that this is the order of the ordinals.
  Adding a \<open>timedelta\<close> raises \<open>OverflowError\<close> when the result leaves the range of
  representable dates; that is a branch of the model.
\<close>

type_synonym date = int

datatype error = OverflowError

definition MAXORDINAL :: int where
  "MAXORDINAL = 3652059"

definition valid_date :: "date \<Rightarrow> bool" where
  "valid_date d \<longleftrightarrow> 1 \<le> d \<and> d \<le> MAXORDINAL"

definition DAYS_IN_MONTH :: "int list" where
  "DAYS_IN_MONTH = [-1, 31, 28, 31, 30, 31, 30, 31, 31, 30, 31, 30, 31]"

definition DAYS_BEFORE_MONTH :: "int list" where
  "DAYS_BEFORE_MONTH = [-1, 0, 31, 59, 90, 120, 151, 181, 212, 243, 273, 304, 334]"

definition is_leap :: "int \<Rightarrow> bool" where
  "is_leap year \<longleftrightarrow> year mod 4 = 0 \<and> (year mod 100 \<noteq> 0 \<or> year mod 400 = 0)"

definition days_before_year :: "int \<Rightarrow> int" where
  "days_before_year year =
     (let y = year - 1 in y * 365 + y div 4 - y div 100 + y div 400)"

definition days_in_month :: "int \<Rightarrow> int \<Rightarrow> int" where
  "days_in_month year month =
     (if month = 2 \<and> is_leap year then 29 else DAYS_IN_MONTH ! nat month)"

definition days_before_month :: "int \<Rightarrow> int \<Rightarrow> int" where
  "days_before_month year month =
     DAYS_BEFORE_MONTH ! nat month + (if month > 2 \<and> is_leap year then 1 else 0)"

definition ymd2ord :: "int \<Rightarrow> int \<Rightarrow> int \<Rightarrow> date" where
  "ymd2ord year month day = days_before_year year + days_before_month year month + day"

definition ord2ymd :: "date \<Rightarrow> int \<times> int \<times> int" where
  "ord2ymd ordinal =
     (let n = ordinal - 1;
          n400 = n div 146097; n = n mod 146097;
          year = n400 * 400 + 1;
          n100 = n div 36524; n = n mod 36524;
          n4 = n div 1461; n = n mod 1461;
          n1 = n div 365; n = n mod 365;
          year = year + (n100 * 100 + n4 * 4 + n1)
      in if n1 = 4 \<or> n100 = 4 then (year - 1, 12, 31)
         else
           let leapyear = (n1 = 3 \<and> (n4 \<noteq> 24 \<or> n100 = 3));
               month = (n + 50) div 32;
               preceding = DAYS_BEFORE_MONTH ! nat month
                             + (if month > 2 \<and> leapyear then 1 else 0)
           in if preceding > n
              then
                let month = month - 1;
                    preceding = preceding
                      - (DAYS_IN_MONTH ! nat month + (if month = 2 \<and> leapyear then 1 else 0))
                in (year, month, n - preceding + 1)
              else (year, month, n - preceding + 1))"

text \<open>
  A date object holds year, month and day and compares by them, in this order. \<open>valid_ymd\<close>
  says that a triple names a day of the calendar; \<open>ymd_le\<close> is the comparison of date
  objects. Both serve only to relate the representation by ordinals to the objects.
\<close>

definition valid_ymd :: "int \<times> int \<times> int \<Rightarrow> bool" where
  "valid_ymd a =
     (case a of (y, m, d) \<Rightarrow> 1 \<le> m \<and> m \<le> 12 \<and> 1 \<le> d \<and> d \<le> days_in_month y m)"

definition ymd_le :: "int \<times> int \<times> int \<Rightarrow> int \<times> int \<times> int \<Rightarrow> bool" where
  "ymd_le a b =
     (case a of (y, m, d) \<Rightarrow> case b of (y', m', d') \<Rightarrow>
        y < y' \<or> (y = y' \<and> (m < m' \<or> (m = m' \<and> d \<le> d'))))"

definition month :: "date \<Rightarrow> int" where
  "month d = fst (snd (ord2ymd d))"

definition day :: "date \<Rightarrow> int" where
  "day d = snd (snd (ord2ymd d))"

definition weekday :: "date \<Rightarrow> int" where
  \<comment> \<open>\<open>date.weekday()\<close>: Monday is 0, Saturday is 5, Sunday is 6\<close>
  "weekday d = (d + 6) mod 7"

definition date_add :: "date \<Rightarrow> int \<Rightarrow> error + date" where
  \<comment> \<open>\<open>d + timedelta(days=n)\<close>; \<open>d - timedelta(days=n)\<close> is \<open>date_add d (- n)\<close>\<close>
  "date_add d n =
     (let ordinal = d + n
      in if 0 < ordinal \<and> ordinal \<le> MAXORDINAL then Inr ordinal else Inl OverflowError)"


section \<open>The tier classifier (\<open>get_next_tape.py\<close>)\<close>

text \<open>
  \<open>holidays\<close> is the list that \<open>get_public_holidays\<close> builds from the holiday file;
  \<open>in\<close> on a list is membership. The function returns the name of the pool as a string,
  or \<open>None\<close>. The message printed on the \<open>None\<close> branch is not part of the returned value.
\<close>

definition is_public_holiday :: "date \<Rightarrow> date list \<Rightarrow> bool" where
  "is_public_holiday today holidays \<longleftrightarrow> today \<in> set holidays"

definition calculate_backup_pool :: "date \<Rightarrow> date list \<Rightarrow> error + string option" where
  "calculate_backup_pool today holidays =
     (case date_add today 1 of
        Inl e \<Rightarrow> Inl e
      | Inr backup_day \<Rightarrow>
          if weekday backup_day = 6 \<or> is_public_holiday backup_day holidays then Inr None
          else if weekday backup_day = 5 then
            (if day backup_day \<le> 7 \<and> month backup_day \<in> set [2, 8] then Inr (Some ''Yearly'')
             else if day backup_day \<le> 7 then Inr (Some ''Monthly'')
             else Inr (Some ''Weekly''))
          else Inr (Some ''Daily''))"

text \<open>
  The classification as the specification words it, on the shifted date \<open>backupDay\<close>
  and the set of holidays; the theorems below compare it with the code.
\<close>

definition tier_by_spec :: "date \<Rightarrow> date set \<Rightarrow> string option" where
  "tier_by_spec backupDay H =
     (if weekday backupDay = 6 \<or> backupDay \<in> H then None
      else if weekday backupDay = 5 then
        (if day backupDay \<le> 7 \<and> (month backupDay = 2 \<or> month backupDay = 8)
         then Some ''Yearly''
         else if day backupDay \<le> 7 then Some ''Monthly''
         else Some ''Weekly'')
      else Some ''Daily'')"


section \<open>The skip-day generator (\<open>get_skip_days.py\<close>, \<open>main\<close> from the date range on)\<close>

text \<open>
  The model starts where \<open>start_date\<close>, \<open>end_date\<close> and \<open>source_holidays\<close> are fixed.
  \<open>source_holidays\<close> is a Python set: it is given as the list of its elements in the order
  in which the \<open>for\<close> loop meets them, and \<open>in\<close> is membership in that list.
  \<open>valid_dates\<close> is a set that is only added to and finally sorted.

  \<open>scan_range\<close> is the \<open>while\<close> loop. Both date computations of its body can raise
  \<open>OverflowError\<close>, which ends \<open>main\<close>.
\<close>

function scan_range :: "date \<Rightarrow> date \<Rightarrow> date list \<Rightarrow> date set \<Rightarrow> error + date set" where
  "scan_range current_date end_date source_holidays valid_dates =
     (if current_date \<le> end_date then
        (case date_add current_date (- 1) of
           Inl e \<Rightarrow> Inl e
         | Inr previous_day \<Rightarrow>
             (case date_add current_date 1 of
                Inl e \<Rightarrow> Inl e
              | Inr next_date \<Rightarrow>
                  scan_range next_date end_date source_holidays
                    (if weekday current_date < 5 \<and> previous_day \<in> set source_holidays
                     then insert current_date valid_dates else valid_dates)))
      else Inr valid_dates)"
  by pat_completeness auto
termination
  by (relation "measure (\<lambda>(current_date, end_date, _, _). nat (end_date - current_date + 1))")
     (auto simp: date_add_def Let_def split: if_splits)

declare scan_range.simps [simp del]

text \<open>The \<open>for\<close> loop over the holidays: a holiday on a Friday inside the range is added.\<close>

fun friday_holidays :: "date list \<Rightarrow> date \<Rightarrow> date \<Rightarrow> date set \<Rightarrow> date set" where
  "friday_holidays [] start_date end_date valid_dates = valid_dates"
| "friday_holidays (holiday # rest) start_date end_date valid_dates =
     friday_holidays rest start_date end_date
       (if weekday holiday = 4 \<and> holiday \<ge> start_date \<and> holiday \<le> end_date
        then insert holiday valid_dates else valid_dates)"

definition valid_dates_of :: "date \<Rightarrow> date \<Rightarrow> date list \<Rightarrow> error + date set" where
  "valid_dates_of start_date end_date source_holidays =
     (case scan_range start_date end_date source_holidays {} of
        Inl e \<Rightarrow> Inl e
      | Inr valid_dates \<Rightarrow> Inr (friday_holidays source_holidays start_date end_date valid_dates))"

text \<open>
  What \<open>main\<close> writes: \<open>Some\<close> of the sorted dates, one per line of the output file, or
  \<open>None\<close> when the set is empty, in which case the file is not opened and
  "No dates found." is printed.
\<close>

definition main :: "date \<Rightarrow> date \<Rightarrow> date list \<Rightarrow> error + date list option" where
  "main start_date end_date source_holidays =
     (case valid_dates_of start_date end_date source_holidays of
        Inl e \<Rightarrow> Inl e
      | Inr valid_dates \<Rightarrow>
          if valid_dates \<noteq> {} then Inr (Some (sorted_list_of_set valid_dates)) else Inr None)"

text \<open>The two rules of the specification, as sets.\<close>

definition rule_A :: "date \<Rightarrow> date \<Rightarrow> date set \<Rightarrow> date set" where
  "rule_A s e H = {d \<in> {s..e}. weekday d \<in> {0, 1, 2, 3, 4} \<and> d - 1 \<in> H}"

definition rule_B :: "date \<Rightarrow> date \<Rightarrow> date set \<Rightarrow> date set" where
  "rule_B s e H = {h \<in> H. weekday h = 4 \<and> s \<le> h \<and> h \<le> e}"


section \<open>The tape-label extractor (\<open>get_next_tape.py\<close>)\<close>

text \<open>
  A Python \<open>str\<close> is a sequence of code points, here natural numbers. The pattern is
  \<^verbatim>\<open>(Daily\d+|Weekly\d+|Monthly\d+|Yearly\d+)\<close>. On a \<open>str\<close>, \<^verbatim>\<open>\d\<close> matches the ASCII
  digits and every other code point of Unicode category Nd; the table of those belongs to
  the interpreter and is the parameter \<open>nd\<close> of the model. \<open>re.search\<close> tries the start
  positions from left to right and, at each, the alternatives in the order written;
  \<^verbatim>\<open>\d+\<close> is greedy and ends the pattern, so it takes the whole run of digits. Group 1 spans
  the whole pattern.
\<close>

type_synonym pystr = "nat list"

definition str :: "string \<Rightarrow> pystr" where
  "str s = map of_char s"

definition is_digit :: "(nat \<Rightarrow> bool) \<Rightarrow> nat \<Rightarrow> bool" where
  "is_digit nd c \<longleftrightarrow> (48 \<le> c \<and> c \<le> 57) \<or> nd c"

definition TIER_NAMES :: "pystr list" where
  "TIER_NAMES = [str ''Daily'', str ''Weekly'', str ''Monthly'', str ''Yearly'']"

definition match_digits :: "(nat \<Rightarrow> bool) \<Rightarrow> pystr \<Rightarrow> pystr option" where
  "match_digits nd s =
     (let ds = takeWhile (is_digit nd) s in if ds = [] then None else Some ds)"

definition match_tier :: "(nat \<Rightarrow> bool) \<Rightarrow> pystr \<Rightarrow> pystr \<Rightarrow> pystr option" where
  "match_tier nd name s =
     (if take (length name) s = name
      then (case match_digits nd (drop (length name) s) of
              None \<Rightarrow> None
            | Some ds \<Rightarrow> Some (name @ ds))
      else None)"

fun match_alternatives :: "(nat \<Rightarrow> bool) \<Rightarrow> pystr list \<Rightarrow> pystr \<Rightarrow> pystr option" where
  "match_alternatives nd [] s = None"
| "match_alternatives nd (name # names) s =
     (case match_tier nd name s of
        Some m \<Rightarrow> Some m
      | None \<Rightarrow> match_alternatives nd names s)"

fun re_search :: "(nat \<Rightarrow> bool) \<Rightarrow> pystr \<Rightarrow> pystr option" where
  "re_search nd [] = match_alternatives nd TIER_NAMES []"
| "re_search nd (c # cs) =
     (case match_alternatives nd TIER_NAMES (c # cs) of
        Some m \<Rightarrow> Some m
      | None \<Rightarrow> re_search nd cs)"

definition extract_tape_label :: "(nat \<Rightarrow> bool) \<Rightarrow> pystr \<Rightarrow> pystr option" where
  "extract_tape_label nd tape_info =
     (case re_search nd tape_info of
        Some match \<Rightarrow> Some match
      | None \<Rightarrow> None)"

text \<open>
  The words of the specification: a label is a tier name immediately followed by one or
  more digits; \<open>occurs_at w s i\<close> says that \<open>w\<close> is the substring of \<open>s\<close> that starts at
  index \<open>i\<close>.
\<close>

definition tape_label :: "(nat \<Rightarrow> bool) \<Rightarrow> pystr \<Rightarrow> bool" where
  "tape_label nd w \<longleftrightarrow>
     (\<exists>name \<in> set TIER_NAMES.
        take (length name) w = name \<and> drop (length name) w \<noteq> [] \<and>
        list_all (is_digit nd) (drop (length name) w))"

definition occurs_at :: "pystr \<Rightarrow> pystr \<Rightarrow> nat \<Rightarrow> bool" where
  "occurs_at w s i \<longleftrightarrow> i + length w \<le> length s \<and> take (length w) (drop i s) = w"


section \<open>The representation of dates by ordinals\<close>

text \<open>
  Reading year, month and day from an ordinal and converting them back gives the ordinal
  again, the triple read is a day of the calendar, and the order of the ordinals is the
  order in which date objects compare. So distinct ordinals are distinct dates, and
  \<open>\<le>\<close> on ordinals is \<open>\<le>\<close> on dates.
\<close>

lemma div_split: 
  fixes k r b :: int
  assumes "0 \<le> r" "r < b"
  shows "(b * k + r) div b = k" "(b * k + r) mod b = r"
  using assms by (simp_all add: div_pos_pos_trivial)

lemma days_before_year_cycle:
  assumes "0 \<le> n100" "n100 \<le> 3" "0 \<le> n4" "n4 \<le> 24" "0 \<le> n1" "n1 \<le> 3"
  shows "days_before_year (q * 400 + 1 + (n100 * 100 + n4 * 4 + n1))
           = 146097 * q + 36524 * n100 + 1461 * n4 + 365 * n1"
proof -
  let ?y = "q * 400 + (n100 * 100 + n4 * 4 + n1)"
  have "?y = 4 * (100 * q + 25 * n100 + n4) + n1" by simp
  then have d4: "?y div 4 = 100 * q + 25 * n100 + n4"
    using assms div_split(1) [of n1 4 "100 * q + 25 * n100 + n4"] by simp
  have "?y = 100 * (4 * q + n100) + (4 * n4 + n1)" by simp
  then have d100: "?y div 100 = 4 * q + n100"
    using assms div_split(1) [of "4 * n4 + n1" 100 "4 * q + n100"] by simp
  have "?y = 400 * q + (100 * n100 + 4 * n4 + n1)" by simp
  then have d400: "?y div 400 = q"
    using assms div_split(1) [of "100 * n100 + 4 * n4 + n1" 400 q] by simp
  show ?thesis
    using d4 d100 d400 by (simp add: days_before_year_def Let_def algebra_simps)
qed

lemma is_leap_cycle:
  assumes "0 \<le> n100" "n100 \<le> 3" "0 \<le> n4" "n4 \<le> 24" "0 \<le> n1" "n1 \<le> 3"
  shows "is_leap (q * 400 + 1 + (n100 * 100 + n4 * 4 + n1)) \<longleftrightarrow> n1 = 3 \<and> (n4 \<noteq> 24 \<or> n100 = 3)"
proof -
  let ?y = "q * 400 + 1 + (n100 * 100 + n4 * 4 + n1)"
  have m4: "?y mod 4 = (n1 + 1) mod 4"
  proof -
    have "?y = 4 * (100 * q + 25 * n100 + n4) + (n1 + 1)" by simp
    then show ?thesis by (metis mod_mult_self4)
  qed
  have m100: "?y mod 100 = (4 * n4 + n1 + 1) mod 100"
  proof -
    have "?y = 100 * (4 * q + n100) + (4 * n4 + n1 + 1)" by simp
    then show ?thesis by (metis mod_mult_self4)
  qed
  have m400: "?y mod 400 = (100 * n100 + 4 * n4 + n1 + 1) mod 400"
  proof -
    have "?y = 400 * q + (100 * n100 + 4 * n4 + n1 + 1)" by simp
    then show ?thesis by (metis mod_mult_self4)
  qed
  have a: "(n1 + 1) mod 4 = 0 \<longleftrightarrow> n1 = 3"
  proof (cases "n1 = 3")
    case True
    then show ?thesis by simp
  next
    case False
    with assms(5,6) have "(n1 + 1) mod 4 = n1 + 1"
      by (intro mod_pos_pos_trivial) simp_all
    with False assms(5) show ?thesis by simp
  qed
  have b: "(4 * n4 + n1 + 1) mod 100 = 0 \<longleftrightarrow> n4 = 24" if "n1 = 3"
  proof (cases "n4 = 24")
    case True
    with that show ?thesis by simp
  next
    case False
    with assms(3,4) that have "(4 * n4 + n1 + 1) mod 100 = 4 * n4 + n1 + 1"
      by (intro mod_pos_pos_trivial) simp_all
    with False assms(3) that show ?thesis by simp
  qed
  have c: "(100 * n100 + 4 * n4 + n1 + 1) mod 400 = 0 \<longleftrightarrow> n100 = 3" if "n1 = 3" "n4 = 24"
  proof (cases "n100 = 3")
    case True
    with that show ?thesis by simp
  next
    case False
    with assms(1,2) that have "(100 * n100 + 4 * n4 + n1 + 1) mod 400 = 100 * n100 + 4 * n4 + n1 + 1"
      by (intro mod_pos_pos_trivial) simp_all
    with False assms(1) that show ?thesis by simp
  qed
  show ?thesis
    unfolding is_leap_def m4 m100 m400 using a b c by (cases "n1 = 3"; cases "n4 = 24") simp_all
qed

lemma days_before_month_values:
  "days_before_month y 1 = 0"
  "days_before_month y 2 = 31"
  "days_before_month y 3 = 59 + (if is_leap y then 1 else 0)"
  "days_before_month y 4 = 90 + (if is_leap y then 1 else 0)"
  "days_before_month y 5 = 120 + (if is_leap y then 1 else 0)"
  "days_before_month y 6 = 151 + (if is_leap y then 1 else 0)"
  "days_before_month y 7 = 181 + (if is_leap y then 1 else 0)"
  "days_before_month y 8 = 212 + (if is_leap y then 1 else 0)"
  "days_before_month y 9 = 243 + (if is_leap y then 1 else 0)"
  "days_before_month y 10 = 273 + (if is_leap y then 1 else 0)"
  "days_before_month y 11 = 304 + (if is_leap y then 1 else 0)"
  "days_before_month y 12 = 334 + (if is_leap y then 1 else 0)"
  by (simp_all add: days_before_month_def DAYS_BEFORE_MONTH_def)

lemma days_in_month_values:
  "days_in_month y 1 = 31"
  "days_in_month y 2 = (if is_leap y then 29 else 28)"
  "days_in_month y 3 = 31" "days_in_month y 4 = 30" "days_in_month y 5 = 31"
  "days_in_month y 6 = 30" "days_in_month y 7 = 31" "days_in_month y 8 = 31"
  "days_in_month y 9 = 30" "days_in_month y 10 = 31" "days_in_month y 11 = 30"
  "days_in_month y 12 = 31"
  by (simp_all add: days_in_month_def DAYS_IN_MONTH_def)

lemma month_tables:
  assumes "1 \<le> m" and "m \<le> 12"
  shows "m \<in> {1, 2, 3, 4, 5, 6, 7, 8, 9, 10, 11, 12 :: int}"
  using assms by simp arith

lemma ord2ymd_ymd2ord:
  "case ord2ymd n of (y, m, d) \<Rightarrow> ymd2ord y m d = n \<and> valid_ymd (y, m, d)"
proof -
  define q where "q = (n - 1) div 146097"
  define r400 where "r400 = (n - 1) mod 146097"
  define n100 where "n100 = r400 div 36524"
  define r100 where "r100 = r400 mod 36524"
  define n4 where "n4 = r100 div 1461"
  define r4 where "r4 = r100 mod 1461"
  define n1 where "n1 = r4 div 365"
  define r1 where "r1 = r4 mod 365"
  define Y where "Y = q * 400 + 1 + (n100 * 100 + n4 * 4 + n1)"
  define leapyear where "leapyear \<longleftrightarrow> n1 = 3 \<and> (n4 \<noteq> 24 \<or> n100 = 3)"
  define M where "M = (r1 + 50) div 32"
  define preceding where
    "preceding = DAYS_BEFORE_MONTH ! nat M + (if M > 2 \<and> leapyear then 1 else 0)"
  have unfold: "ord2ymd n =
      (if n1 = 4 \<or> n100 = 4 then (Y - 1, 12, 31)
       else if preceding > r1
         then (Y, M - 1, r1 - (preceding - (DAYS_IN_MONTH ! nat (M - 1)
                                  + (if M - 1 = 2 \<and> leapyear then 1 else 0))) + 1)
         else (Y, M, r1 - preceding + 1))"
    unfolding ord2ymd_def Let_def preceding_def M_def leapyear_def Y_def r1_def n1_def r4_def
      n4_def r100_def n100_def r400_def q_def
    by simp
  have n0: "n - 1 = 146097 * q + r400"
    by (simp add: q_def r400_def)
  have e400: "r400 = 36524 * n100 + r100"
    by (simp add: n100_def r100_def)
  have e100: "r100 = 1461 * n4 + r4"
    by (simp add: n4_def r4_def)
  have e4: "r4 = 365 * n1 + r1"
    by (simp add: n1_def r1_def)
  have b400: "0 \<le> r400" "r400 < 146097"
    by (simp_all add: r400_def)
  have b100: "0 \<le> r100" "r100 < 36524"
    by (simp_all add: r100_def)
  have b4: "0 \<le> r4" "r4 < 1461"
    by (simp_all add: r4_def)
  have b1: "0 \<le> r1" "r1 < 365"
    by (simp_all add: r1_def)
  have c100: "0 \<le> n100" "n100 \<le> 4"
    using b400 b100 e400 by linarith+
  have c4: "0 \<le> n4" "n4 \<le> 24"
    using b100 b4 e100 by linarith+
  have c1: "0 \<le> n1" "n1 \<le> 4"
    using b4 b1 e4 by linarith+
  have last_day: "ymd2ord (Y - 1) 12 31 = days_before_year (Y - 1) + 366 \<and>
      valid_ymd (Y - 1, 12, 31)" if "is_leap (Y - 1)"
    using that by (simp add: ymd2ord_def days_before_month_values valid_ymd_def
        days_in_month_values)
  show ?thesis
  proof (cases "n100 = 4")
    case True
    with e400 b400 b100 have "r100 = 0" by linarith
    with e100 b4 c4 have "n4 = 0" "r4 = 0" by linarith+
    with e4 b1 c1 have "n1 = 0" "r1 = 0" by linarith+
    have Y: "Y - 1 = q * 400 + 1 + (3 * 100 + 24 * 4 + 3)"
      by (simp add: Y_def True \<open>n4 = 0\<close> \<open>n1 = 0\<close>)
    have "days_before_year (Y - 1) = 146097 * q + 36524 * 3 + 1461 * 24 + 365 * 3"
      unfolding Y by (rule days_before_year_cycle) simp_all
    moreover have "is_leap (Y - 1)"
      unfolding Y by (subst is_leap_cycle) simp_all
    moreover have "n - 1 = 146097 * q + 146096"
      using n0 e400 True \<open>r100 = 0\<close> by simp
    moreover have "ord2ymd n = (Y - 1, 12, 31)"
      by (simp add: unfold True)
    ultimately show ?thesis
      using last_day by simp
  next
    case n100: False
    with c100 have c100': "n100 \<le> 3" by simp
    show ?thesis
    proof (cases "n1 = 4")
      case True
      with e4 b4 b1 have "r1 = 0" by linarith
      from True e4 e100 b100 b1 have c4': "n4 \<le> 23" by linarith
      have Y: "Y - 1 = q * 400 + 1 + (n100 * 100 + n4 * 4 + 3)"
        by (simp add: Y_def True)
      have "days_before_year (Y - 1) = 146097 * q + 36524 * n100 + 1461 * n4 + 365 * 3"
        unfolding Y using c100(1) c100' c4(1) c4' by (intro days_before_year_cycle) simp_all
      moreover have "is_leap (Y - 1)"
        unfolding Y using c100(1) c100' c4(1) c4' by (subst is_leap_cycle) simp_all
      moreover have "n - 1 = 146097 * q + 36524 * n100 + 1461 * n4 + 1460"
        using n0 e400 e100 e4 True \<open>r1 = 0\<close> by simp
      moreover have "ord2ymd n = (Y - 1, 12, 31)"
        by (simp add: unfold True)
      ultimately show ?thesis
        using last_day by simp
    next
      case n1: False
      with c1 have c1': "n1 \<le> 3" by simp
      have dby: "days_before_year Y = 146097 * q + 36524 * n100 + 1461 * n4 + 365 * n1"
        unfolding Y_def using c100(1) c100' c4 c1(1) c1' by (intro days_before_year_cycle)
      have leap: "is_leap Y \<longleftrightarrow> leapyear"
        unfolding Y_def leapyear_def using c100(1) c100' c4 c1(1) c1' by (intro is_leap_cycle)
      have n: "n = days_before_year Y + r1 + 1"
        using n0 e400 e100 e4 dby by simp
      have M: "1 \<le> M" "M \<le> 12"
        unfolding M_def using b1 by linarith+
      have M32: "32 * M \<le> r1 + 50" "r1 + 50 < 32 * M + 32"
        unfolding M_def by linarith+
      have p: "days_before_month Y M = preceding"
        by (simp add: days_before_month_def preceding_def leap)
      show ?thesis
      proof (cases "preceding > r1")
        case False
        from False n1 n100 have r: "ord2ymd n = (Y, M, r1 - preceding + 1)"
          by (simp add: unfold)
        have "r1 - days_before_month Y M + 1 \<le> days_in_month Y M"
          using month_tables [OF M] M32 b1
          by (auto simp: days_before_month_values days_in_month_values)
        with False M p have "valid_ymd (Y, M, r1 - preceding + 1)"
          by (simp add: valid_ymd_def)
        with p n show ?thesis
          unfolding r by (simp add: ymd2ord_def)
      next
        case True
        have "M \<noteq> 1"
        proof
          assume "M = 1"
          then have "preceding = 0"
            by (simp add: preceding_def DAYS_BEFORE_MONTH_def)
          with True b1 show False by simp
        qed
        with month_tables [OF M] have M': "M \<in> {2, 3, 4, 5, 6, 7, 8, 9, 10, 11, 12}"
          by simp
        then have p': "days_before_month Y (M - 1) =
            preceding - (DAYS_IN_MONTH ! nat (M - 1) + (if M - 1 = 2 \<and> leapyear then 1 else 0))"
          by (auto simp: days_before_month_def preceding_def leap DAYS_BEFORE_MONTH_def
              DAYS_IN_MONTH_def)
        from True n1 n100 have r: "ord2ymd n = (Y, M - 1, r1 - days_before_month Y (M - 1) + 1)"
          by (simp add: unfold p')
        from M' M32 have lo: "days_before_month Y (M - 1) \<le> r1"
          by (auto simp: days_before_month_values)
        from M' True have hi: "r1 - days_before_month Y (M - 1) + 1 \<le> days_in_month Y (M - 1)"
          unfolding p [symmetric]
          by (auto simp: days_before_month_values days_in_month_values split: if_splits)
        from M' lo hi have "valid_ymd (Y, M - 1, r1 - days_before_month Y (M - 1) + 1)"
          by (auto simp: valid_ymd_def)
        with n show ?thesis
          unfolding r by (simp add: ymd2ord_def)
      qed
    qed
  qed
qed

lemma div_step:
  fixes y c :: int
  assumes "0 < c"
  shows "y div c = (y - 1) div c + (if y mod c = 0 then 1 else 0)"
proof (cases "y mod c = 0")
  case True
  then obtain k where k: "y = c * k" by auto
  have e: "c * k - 1 = c * (k - 1) + (c - 1)"
    by (simp add: algebra_simps)
  have "(c * (k - 1) + (c - 1)) div c = k - 1"
    using assms by (intro div_split(1)) simp_all
  then have "(c * k - 1) div c = k - 1"
    by (simp only: e)
  moreover from assms have "(c * k) div c = k"
    by simp
  ultimately show ?thesis
    using True by (simp add: k)
next
  case False
  define k where "k = y div c"
  define r where "r = y mod c"
  have y: "y = c * k + r" by (simp add: k_def r_def)
  from assms have "0 \<le> r" "r < c"
    unfolding r_def by simp_all
  with False have r: "0 \<le> r - 1" "r - 1 < c"
    unfolding r_def by simp_all
  have e: "y - 1 = c * k + (r - 1)" by (simp add: y)
  have "(c * k + (r - 1)) div c = k"
    using r by (rule div_split(1))
  then have "(y - 1) div c = k" unfolding e .
  with False show ?thesis by (simp add: k_def)
qed

lemma mod_400_100: "(y::int) mod 400 = 0 \<Longrightarrow> y mod 100 = 0"
proof -
  assume "y mod 400 = 0"
  then have "400 dvd y" by (simp add: mod_eq_0_iff_dvd)
  moreover have "(100::int) dvd 400" by simp
  ultimately have "100 dvd y" by (rule dvd_trans [rotated])
  then show ?thesis by (simp add: mod_eq_0_iff_dvd)
qed

lemma mod_100_4: "(y::int) mod 100 = 0 \<Longrightarrow> y mod 4 = 0"
proof -
  assume "y mod 100 = 0"
  then have "100 dvd y" by (simp add: mod_eq_0_iff_dvd)
  moreover have "(4::int) dvd 100" by simp
  ultimately have "4 dvd y" by (rule dvd_trans [rotated])
  then show ?thesis by (simp add: mod_eq_0_iff_dvd)
qed

lemma days_before_year_step:
  "days_before_year (y + 1) = days_before_year y + 365 + (if is_leap y then 1 else 0)"
proof -
  define a :: int where "a = (if y mod 4 = 0 then 1 else 0)"
  define b :: int where "b = (if y mod 100 = 0 then 1 else 0)"
  define c :: int where "c = (if y mod 400 = 0 then 1 else 0)"
  have s: "y div 4 = (y - 1) div 4 + a" "y div 100 = (y - 1) div 100 + b"
    "y div 400 = (y - 1) div 400 + c"
    unfolding a_def b_def c_def by (rule div_step, simp)+
  have "days_before_year (y + 1) = y * 365 + y div 4 - y div 100 + y div 400"
    by (simp add: days_before_year_def)
  also have "\<dots> = days_before_year y + 365 + (a - b + c)"
    unfolding s by (simp add: days_before_year_def Let_def algebra_simps)
  also have "a - b + c = (if is_leap y then 1 else 0)"
    unfolding a_def b_def c_def is_leap_def using mod_400_100 [of y] mod_100_4 [of y]
    by (cases "y mod 400 = 0"; cases "y mod 100 = 0"; cases "y mod 4 = 0") simp_all
  finally show ?thesis .
qed

lemma days_before_year_mono:
  assumes "a \<le> b"
  shows "days_before_year a \<le> days_before_year b"
  using assms
proof (induction b rule: int_ge_induct)
  case base
  show ?case by simp
next
  case (step i)
  from days_before_year_step [of i] have "days_before_year i \<le> days_before_year (i + 1)"
    by simp
  with step.IH show ?case by simp
qed

lemma day_of_year_bounds:
  assumes "valid_ymd (y, m, d)"
  shows "1 \<le> days_before_month y m + d"
    and "days_before_month y m + d \<le> 365 + (if is_leap y then 1 else 0)"
proof -
  from assms have v: "1 \<le> m" "m \<le> 12" and d: "1 \<le> d" "d \<le> days_in_month y m"
    by (simp_all add: valid_ymd_def)
  note m = month_tables [OF v]
  from m d show "1 \<le> days_before_month y m + d"
    by (auto simp: days_before_month_values)
  from m d show "days_before_month y m + d \<le> 365 + (if is_leap y then 1 else 0)"
    by (auto simp: days_before_month_values days_in_month_values split: if_splits)
qed

lemma day_of_year_mono:
  assumes "valid_ymd (y, m, d)" and "valid_ymd (y, m', d')" and "m < m'"
  shows "days_before_month y m + d < days_before_month y m' + d'"
proof -
  from assms(1) have v: "1 \<le> m" "m \<le> 12" and d: "d \<le> days_in_month y m"
    by (simp_all add: valid_ymd_def)
  from assms(2) have v': "1 \<le> m'" "m' \<le> 12" and d': "1 \<le> d'"
    by (simp_all add: valid_ymd_def)
  note m = month_tables [OF v] and m' = month_tables [OF v']
  from m d have a: "days_before_month y m + d \<le> days_before_month y (m + 1)" if "m \<le> 11"
    using that by (auto simp: days_before_month_values days_in_month_values split: if_splits)
  have b: "days_before_month y (m + 1) \<le> days_before_month y m'"
    using m m' assms(3) by (auto simp: days_before_month_values)
  from assms(3) m' have "m \<le> 11" by auto
  from a [OF this] b d' show ?thesis by simp
qed

lemma ymd2ord_mono:
  assumes "valid_ymd a" and "valid_ymd b" and "ymd_le a b"
  shows "(case a of (y, m, d) \<Rightarrow> ymd2ord y m d) \<le> (case b of (y, m, d) \<Rightarrow> ymd2ord y m d)"
proof -
  obtain y m d where a: "a = (y, m, d)" by (cases a)
  obtain y' m' d' where b: "b = (y', m', d')" by (cases b)
  from assms(3) consider "y < y'" | "y = y'" "m < m'" | "y = y'" "m = m'" "d \<le> d'"
    by (auto simp: ymd_le_def a b)
  then have "ymd2ord y m d \<le> ymd2ord y' m' d'"
  proof cases
    case 1
    have "ymd2ord y m d \<le> days_before_year y + (365 + (if is_leap y then 1 else 0))"
      using day_of_year_bounds(2) [of y m d] assms(1) by (simp add: ymd2ord_def a)
    also have "\<dots> = days_before_year (y + 1)"
      by (simp add: days_before_year_step)
    also from 1 have "\<dots> \<le> days_before_year y'"
      by (intro days_before_year_mono) simp
    also have "\<dots> \<le> ymd2ord y' m' d'"
      using day_of_year_bounds(1) [of y' m' d'] assms(2) by (simp add: ymd2ord_def b)
    finally show ?thesis .
  next
    case 2
    with day_of_year_mono [of y m d m' d'] assms(1,2) show ?thesis
      by (simp add: ymd2ord_def a b)
  next
    case 3
    then show ?thesis by (simp add: ymd2ord_def)
  qed
  then show ?thesis by (simp add: a b)
qed

lemma ymd_le_total: "ymd_le a b \<or> ymd_le b a"
  by (auto simp: ymd_le_def split: prod.splits)

lemma ymd_le_antisym: "ymd_le a b \<Longrightarrow> ymd_le b a \<Longrightarrow> a = b"
  by (auto simp: ymd_le_def split: prod.splits)

lemma ord2ymd_inject: "ord2ymd a = ord2ymd b \<Longrightarrow> a = b"
  using ord2ymd_ymd2ord [of a] ord2ymd_ymd2ord [of b] by (auto split: prod.splits)

lemma date_order_is_ymd_order: "a \<le> b \<longleftrightarrow> ymd_le (ord2ymd a) (ord2ymd b)"
proof -
  have mono: "x \<le> y" if "ymd_le (ord2ymd x) (ord2ymd y)" for x y
    using ymd2ord_mono [OF _ _ that] ord2ymd_ymd2ord [of x] ord2ymd_ymd2ord [of y]
    by (auto split: prod.splits)
  show ?thesis
  proof
    assume ab: "a \<le> b"
    show "ymd_le (ord2ymd a) (ord2ymd b)"
    proof (rule ccontr)
      assume n: "\<not> ymd_le (ord2ymd a) (ord2ymd b)"
      with ymd_le_total have "ymd_le (ord2ymd b) (ord2ymd a)" by blast
      then have "b \<le> a" by (rule mono)
      with ab have "a = b" by simp
      with n ymd_le_total show False by blast
    qed
  next
    assume "ymd_le (ord2ymd a) (ord2ymd b)"
    then show "a \<le> b" by (rule mono)
  qed
qed


section \<open>Properties of the tier classifier\<close>

lemma date_add_one:
  "valid_date today \<Longrightarrow> today \<noteq> MAXORDINAL \<Longrightarrow> date_add today 1 = Inr (today + 1)"
  by (simp add: date_add_def valid_date_def)

lemma pool_of_tomorrow:
  assumes "date_add today 1 = Inr (today + 1)"
  shows "calculate_backup_pool today holidays = Inr (tier_by_spec (today + 1) (set holidays))"
  using assms by (simp add: calculate_backup_pool_def tier_by_spec_def is_public_holiday_def)

lemma tier_by_spec_cases:
  "tier_by_spec d H \<in> {None, Some ''Daily'', Some ''Weekly'', Some ''Monthly'', Some ''Yearly''}"
  by (simp add: tier_by_spec_def)

lemma last_day_is_valid: "ymd2ord 9999 12 31 = MAXORDINAL" "valid_date MAXORDINAL"
  by code_simp+

lemma no_pool_on_last_day: "calculate_backup_pool MAXORDINAL holidays = Inl OverflowError"
  by (simp add: calculate_backup_pool_def date_add_def)

lemma friday_2025_08_08:
  "valid_date (ymd2ord 2025 8 8)" "ymd2ord 2025 8 8 \<noteq> MAXORDINAL"
  "ymd2ord 2025 8 8 + 1 = ymd2ord 2025 8 9"
  by code_simp+

lemma saturday_2025_08_09:
  "weekday (ymd2ord 2025 8 9) = 5" "day (ymd2ord 2025 8 9) = 9" "month (ymd2ord 2025 8 9) = 8"
  "ymd2ord 2025 8 9 \<noteq> ymd2ord 2025 12 25"
  by code_simp+

lemma friday_2025_08_01:
  "valid_date (ymd2ord 2025 8 1)" "ymd2ord 2025 8 1 \<noteq> MAXORDINAL"
  "ymd2ord 2025 8 1 + 1 = ymd2ord 2025 8 2"
  by code_simp+

lemma saturday_2025_08_02:
  "weekday (ymd2ord 2025 8 2) = 5" "day (ymd2ord 2025 8 2) = 2" "month (ymd2ord 2025 8 2) = 8"
  "ymd2ord 2025 8 2 \<noteq> ymd2ord 2025 12 25"
  by code_simp+

text \<open>
  C1 (as amended). For every date \<open>today\<close> before 9999-12-31 and every list of holidays,
  the classifier returns what the specification's algorithm gives on
  \<open>backupDay = today + 1\<close>: \<open>None\<close> on a Sunday or a holiday; on a Saturday \<open>Yearly\<close> when
  the day is at most 7 in February or August, \<open>Monthly\<close> when the day is at most 7
  otherwise, \<open>Weekly\<close> otherwise; \<open>Daily\<close> on the other weekdays. The result is one of
  these five outcomes.
\<close>

theorem classify_tomorrow:
  assumes "valid_date today" and "today \<noteq> MAXORDINAL"
  shows "calculate_backup_pool today holidays = Inr (tier_by_spec (today + 1) (set holidays)) \<and>
         tier_by_spec (today + 1) (set holidays)
           \<in> {None, Some ''Daily'', Some ''Weekly'', Some ''Monthly'', Some ''Yearly''}"
  using assms by (simp only: pool_of_tomorrow date_add_one tier_by_spec_cases simp_thms)

theorem classify_tomorrow_witness:
  "valid_date (ymd2ord 2025 8 8) \<and> ymd2ord 2025 8 8 \<noteq> MAXORDINAL \<and>
   calculate_backup_pool (ymd2ord 2025 8 8) [ymd2ord 2025 12 25] = Inr (Some ''Weekly'')"
proof -
  have "tier_by_spec (ymd2ord 2025 8 9) (set [ymd2ord 2025 12 25]) = Some ''Weekly''"
    by (simp add: tier_by_spec_def saturday_2025_08_09)
  with classify_tomorrow [OF friday_2025_08_08(1,2), of "[ymd2ord 2025 12 25]"]
  show ?thesis
    by (simp add: friday_2025_08_08)
qed

text \<open>
  C1 as stated fails on the last representable date: \<open>today + timedelta(days=1)\<close> raises
  \<open>OverflowError\<close> there, so no outcome is produced.
\<close>

theorem classify_last_day_counterexample:
  "valid_date (ymd2ord 9999 12 31) \<and>
   calculate_backup_pool (ymd2ord 9999 12 31) [] = Inl OverflowError"
  by (simp add: last_day_is_valid no_pool_on_last_day)

text \<open>
  C4. For every date \<open>today\<close>: if \<open>today + 1\<close> is a Saturday with day at most 7 in February
  or August and is not a holiday, the classifier returns \<open>Yearly\<close>, not \<open>Monthly\<close>.
  (On the last representable date the premise is false: the following day would fall in
  January.)
\<close>

theorem yearly_before_monthly:
  assumes "valid_date today"
    and "weekday (today + 1) = 5" and "day (today + 1) \<le> 7"
    and "month (today + 1) = 2 \<or> month (today + 1) = 8"
    and "today + 1 \<notin> set holidays"
  shows "calculate_backup_pool today holidays = Inr (Some ''Yearly'') \<and>
         calculate_backup_pool today holidays \<noteq> Inr (Some ''Monthly'')"
proof (cases "today = MAXORDINAL")
  case True
  have "month (MAXORDINAL + 1) = 1"
    by code_simp
  with True assms(4) show ?thesis by simp
next
  case False
  with assms(1) have "date_add today 1 = Inr (today + 1)"
    by (rule date_add_one)
  with assms(2-5) show ?thesis
    by (simp add: calculate_backup_pool_def is_public_holiday_def)
qed

theorem yearly_before_monthly_witness:
  "valid_date (ymd2ord 2025 8 1) \<and> weekday (ymd2ord 2025 8 2) = 5 \<and>
   day (ymd2ord 2025 8 2) \<le> 7 \<and> month (ymd2ord 2025 8 2) = 8 \<and>
   ymd2ord 2025 8 2 \<notin> set [ymd2ord 2025 12 25] \<and>
   calculate_backup_pool (ymd2ord 2025 8 1) [ymd2ord 2025 12 25] = Inr (Some ''Yearly'')"
  using yearly_before_monthly [of "ymd2ord 2025 8 1" "[ymd2ord 2025 12 25]"]
  by (simp add: friday_2025_08_01 saturday_2025_08_02)

text \<open>
  C5. Two lists of holidays that agree on whether \<open>today + 1\<close> is a holiday give the same
  result, on every date (on the last representable date both calls raise).
\<close>

theorem holidays_elsewhere_irrelevant:
  assumes "today + 1 \<in> set H1 \<longleftrightarrow> today + 1 \<in> set H2"
  shows "calculate_backup_pool today H1 = calculate_backup_pool today H2"
  using assms
  by (simp add: calculate_backup_pool_def date_add_def is_public_holiday_def Let_def)

theorem holidays_elsewhere_irrelevant_witness:
  "(ymd2ord 2025 8 2 \<in> set [] \<longleftrightarrow> ymd2ord 2025 8 2 \<in> set [ymd2ord 2025 12 25]) \<and>
   calculate_backup_pool (ymd2ord 2025 8 1) [] =
   calculate_backup_pool (ymd2ord 2025 8 1) [ymd2ord 2025 12 25]"
  using holidays_elsewhere_irrelevant [of "ymd2ord 2025 8 1" "[]" "[ymd2ord 2025 12 25]"]
  by (simp add: friday_2025_08_01 saturday_2025_08_02)

text \<open>
  C6 (as amended). For every date \<open>d\<close> before 9999-12-31, the classifier with no holidays
  returns \<open>None\<close> exactly when \<open>d + 1\<close> is a Sunday; otherwise it returns \<open>Daily\<close>, unless
  \<open>d + 1\<close> is a Saturday, when it returns one of \<open>Weekly\<close>, \<open>Monthly\<close>, \<open>Yearly\<close>.
\<close>

theorem no_holidays:
  assumes "valid_date d" and "d \<noteq> MAXORDINAL"
  shows "(calculate_backup_pool d [] = Inr None \<longleftrightarrow> weekday (d + 1) = 6) \<and>
         (weekday (d + 1) \<noteq> 6 \<longrightarrow>
            (if weekday (d + 1) = 5
             then calculate_backup_pool d []
                    \<in> {Inr (Some ''Weekly''), Inr (Some ''Monthly''), Inr (Some ''Yearly'')}
             else calculate_backup_pool d [] = Inr (Some ''Daily'')))"
proof -
  from assms have "date_add d 1 = Inr (d + 1)"
    by (rule date_add_one)
  then show ?thesis
    by (simp add: calculate_backup_pool_def is_public_holiday_def)
qed

theorem no_holidays_witness:
  "valid_date (ymd2ord 2025 8 8) \<and> ymd2ord 2025 8 8 \<noteq> MAXORDINAL \<and>
   weekday (ymd2ord 2025 8 9) = 5 \<and>
   calculate_backup_pool (ymd2ord 2025 8 8) [] \<noteq> Inr None \<and>
   calculate_backup_pool (ymd2ord 2025 8 8) []
     \<in> {Inr (Some ''Weekly''), Inr (Some ''Monthly''), Inr (Some ''Yearly'')}"
  using no_holidays [OF friday_2025_08_08(1,2)]
  by (simp add: friday_2025_08_08 saturday_2025_08_09)

text \<open>
  C6 as stated fails on the last representable date, a Friday: the following day would
  be a Saturday, and the classifier raises \<open>OverflowError\<close> instead of returning one of
  \<open>Weekly\<close>, \<open>Monthly\<close>, \<open>Yearly\<close>.
\<close>

theorem no_holidays_last_day_counterexample:
  "valid_date (ymd2ord 9999 12 31) \<and> weekday (ymd2ord 9999 12 31 + 1) = 5 \<and>
   calculate_backup_pool (ymd2ord 9999 12 31) []
     \<notin> {Inr (Some ''Weekly''), Inr (Some ''Monthly''), Inr (Some ''Yearly'')}"
proof -
  have "weekday (MAXORDINAL + 1) = 5"
    by code_simp
  then show ?thesis
    by (simp add: last_day_is_valid no_pool_on_last_day)
qed


section \<open>Properties of the skip-day generator\<close>

lemma scan_range_Inr:
  "scan_range c e hs vd = Inr r \<Longrightarrow>
     r = vd \<union> {d \<in> {c..e}. weekday d < 5 \<and> d - 1 \<in> set hs}"
proof (induction c e hs vd rule: scan_range.induct)
  case (1 c e hs vd)
  show ?case
  proof (cases "c \<le> e")
    case False
    with "1.prems" show ?thesis by (simp add: scan_range.simps [of c e])
  next
    case True
    from True "1.prems" obtain p where p: "date_add c (- 1) = Inr p"
      by (cases "date_add c (- 1)") (simp_all add: scan_range.simps [of c e])
    from True "1.prems" p obtain n where n: "date_add c 1 = Inr n"
      by (cases "date_add c 1") (simp_all add: scan_range.simps [of c e])
    from p have p': "p = c - 1"
      by (simp add: date_add_def Let_def split: if_splits)
    from n have n': "n = c + 1"
      by (simp add: date_add_def Let_def split: if_splits)
    let ?vd = "if weekday c < 5 \<and> p \<in> set hs then insert c vd else vd"
    from True p n "1.prems" have "scan_range n e hs ?vd = Inr r"
      by (simp add: scan_range.simps [of c e])
    with "1.IH" [OF True p n] have r: "r = ?vd \<union> {d \<in> {n..e}. weekday d < 5 \<and> d - 1 \<in> set hs}"
      by simp
    have split: "{c..e} = insert c {c + 1..e}"
      using True by auto
    show ?thesis
      unfolding r split n' p' by auto
  qed
qed

lemma scan_range_returns:
  assumes "e < c \<or> (1 < c \<and> e < MAXORDINAL)"
  shows "\<exists>r. scan_range c e hs vd = Inr r"
  using assms
proof (induction c e hs vd rule: scan_range.induct)
  case (1 c e hs vd)
  show ?case
  proof (cases "c \<le> e")
    case False
    then show ?thesis by (simp add: scan_range.simps [of c e])
  next
    case True
    with "1.prems" have c: "1 < c" "e < MAXORDINAL" by auto
    with True have p: "date_add c (- 1) = Inr (c - 1)" and n: "date_add c 1 = Inr (c + 1)"
      by (simp_all add: date_add_def)
    from c have "e < c + 1 \<or> (1 < c + 1 \<and> e < MAXORDINAL)" by simp
    from "1.IH" [OF True p n this] True p n show ?thesis
      by (simp add: scan_range.simps [of c e])
  qed
qed

lemma scan_range_overflow:
  assumes "c \<le> e" and "1 \<le> c" and "e \<le> MAXORDINAL" and "c = 1 \<or> e = MAXORDINAL"
  shows "scan_range c e hs vd = Inl OverflowError"
  using assms
proof (induction c e hs vd rule: scan_range.induct)
  case (1 c e hs vd)
  show ?case
  proof (cases "c = 1")
    case True
    then have "date_add c (- 1) = Inl OverflowError"
      by (simp add: date_add_def)
    with "1.prems"(1) show ?thesis by (simp add: scan_range.simps [of c e])
  next
    case False
    with "1.prems" have e: "e = MAXORDINAL" and c: "1 < c" by auto
    from c "1.prems" have p: "date_add c (- 1) = Inr (c - 1)"
      by (simp add: date_add_def)
    show ?thesis
    proof (cases "c = e")
      case True
      with e have "date_add c 1 = Inl OverflowError"
        by (simp add: date_add_def)
      with p "1.prems"(1) show ?thesis by (simp add: scan_range.simps [of c e])
    next
      case False
      with "1.prems" e have n: "date_add c 1 = Inr (c + 1)"
        by (simp add: date_add_def)
      from False "1.prems" e c have "c + 1 \<le> e" "1 \<le> c + 1" "c + 1 = 1 \<or> e = MAXORDINAL"
        by auto
      from "1.IH" [OF "1.prems"(1) p n this(1,2) "1.prems"(3) this(3)] "1.prems"(1) p n
      show ?thesis by (simp add: scan_range.simps [of c e])
    qed
  qed
qed

lemma friday_holidays_eq:
  "friday_holidays hs s e vd = vd \<union> {h \<in> set hs. weekday h = 4 \<and> s \<le> h \<and> h \<le> e}"
  by (induction hs arbitrary: vd) auto


lemma weekday_workday: "weekday d < 5 \<longleftrightarrow> weekday d \<in> {0, 1, 2, 3, 4}"
proof -
  have "0 \<le> weekday d" by (simp add: weekday_def)
  then show ?thesis by auto
qed

lemma rule_A_alt: "rule_A s e H = {d \<in> {s..e}. weekday d < 5 \<and> d - 1 \<in> H}"
  by (simp only: rule_A_def weekday_workday)

lemma valid_dates_of_Inr:
  assumes "valid_dates_of s e hs = Inr vd"
  shows "vd = rule_A s e (set hs) \<union> rule_B s e (set hs)"
proof -
  from assms obtain r where r: "scan_range s e hs {} = Inr r"
    and vd: "vd = friday_holidays hs s e r"
    by (auto simp: valid_dates_of_def split: sum.splits)
  from scan_range_Inr [OF r] have "r = rule_A s e (set hs)"
    by (simp add: rule_A_alt)
  with vd show ?thesis
    by (simp add: friday_holidays_eq rule_B_def)
qed

lemma valid_dates_of_returns:
  assumes "e < s \<or> (1 < s \<and> e < MAXORDINAL)"
  shows "valid_dates_of s e hs = Inr (rule_A s e (set hs) \<union> rule_B s e (set hs))"
proof -
  from scan_range_returns [OF assms] obtain r where "scan_range s e hs {} = Inr r"
    by blast
  then have "valid_dates_of s e hs = Inr (friday_holidays hs s e r)"
    by (simp add: valid_dates_of_def)
  with valid_dates_of_Inr [OF this] show ?thesis
    by simp
qed

lemma valid_dates_of_overflow:
  assumes "s \<le> e" and "valid_date s" and "valid_date e" and "s = 1 \<or> e = MAXORDINAL"
  shows "valid_dates_of s e hs = Inl OverflowError"
  using assms by (simp add: valid_dates_of_def valid_date_def scan_range_overflow)

lemma rules_in_range: "rule_A s e H \<union> rule_B s e H \<subseteq> {s..e}"
  by (auto simp: rule_A_def rule_B_def)

lemma finite_rules: "finite (rule_A s e H \<union> rule_B s e H)"
  by (rule finite_subset [OF rules_in_range]) simp

lemma dates_2025:
  "ymd2ord 2025 11 24 = 739579" "ymd2ord 2025 11 28 = 739583" "ymd2ord 2025 11 30 = 739585"
  "ymd2ord 2025 12 1 = 739586" "ymd2ord 2025 12 5 = 739590"
  "ymd2ord 2025 12 20 = 739605" "ymd2ord 2025 12 24 = 739609" "ymd2ord 2025 12 25 = 739610"
  "ymd2ord 2025 12 26 = 739611" "ymd2ord 2025 12 27 = 739612"
  by code_simp+

lemma first_and_last_day: "ymd2ord 1 1 1 = 1" "ymd2ord 1 1 2 = 2" "ymd2ord 9999 12 31 = 3652059"
  by code_simp+

lemma boxing_day_2025:
  "valid_dates_of (ymd2ord 2025 12 24) (ymd2ord 2025 12 27) [ymd2ord 2025 12 25]
     = Inr {ymd2ord 2025 12 26}"
  by (simp add: dates_2025 valid_dates_of_def scan_range.simps date_add_def weekday_def MAXORDINAL_def)

lemma single_holiday:
  assumes "e < s \<or> (1 < s \<and> e < MAXORDINAL)"
  shows "valid_dates_of s e [h] =
           Inr ((if s \<le> h + 1 \<and> h + 1 \<le> e \<and> weekday (h + 1) < 5 then {h + 1} else {}) \<union>
                (if weekday h = 4 \<and> s \<le> h \<and> h \<le> e then {h} else {}))"
proof -
  have "rule_A s e (set [h]) = (if s \<le> h + 1 \<and> h + 1 \<le> e \<and> weekday (h + 1) < 5 then {h + 1} else {})"
    by (auto simp: rule_A_alt)
  moreover have "rule_B s e (set [h]) = (if weekday h = 4 \<and> s \<le> h \<and> h \<le> e then {h} else {})"
    by (auto simp: rule_B_def)
  ultimately show ?thesis
    using valid_dates_of_returns [OF assms, of "[h]"] by simp
qed

lemma valid_dates_2025:
  "valid_date (ymd2ord 2025 11 24)" "valid_date (ymd2ord 2025 12 5)"
  "valid_date (ymd2ord 2025 12 20)" "valid_date (ymd2ord 2025 12 24)"
  "valid_date (ymd2ord 2025 12 27)"
  by code_simp+

lemma weekdays_2025:
  "weekday (ymd2ord 2025 11 28) = 4" "weekday (ymd2ord 2025 11 28 + 1) = 5"
  "weekday (ymd2ord 2025 12 1) = 0" "weekday (ymd2ord 2025 12 26) = 4"
  by code_simp+

text \<open>
  C2 (as amended). For every start date \<open>s\<close>, end date \<open>e\<close> and holiday set: when
  \<open>e < s\<close>, or \<open>s\<close> is after 0001-01-01 (ordinal 1) and \<open>e\<close> is before 9999-12-31, the
  generator returns exactly the union of Rule A and Rule B, written sorted and without
  duplicates, and every Friday holiday of the range is in it. In the remaining case,
  \<open>s \<le> e\<close> with \<open>s\<close> = 0001-01-01 or \<open>e\<close> = 9999-12-31, it raises \<open>OverflowError\<close>
  (from \<open>current_date - timedelta(days=1)\<close> on the first date, or from
  \<open>current_date += timedelta(days=1)\<close> on the last one).
\<close>

theorem skip_days_union:
  assumes "valid_date s" and "valid_date e"
  shows "let U = rule_A s e (set hs) \<union> rule_B s e (set hs)
         in if s \<le> e \<and> (s = 1 \<or> e = MAXORDINAL)
            then valid_dates_of s e hs = Inl OverflowError \<and> main s e hs = Inl OverflowError
            else valid_dates_of s e hs = Inr U \<and>
                 main s e hs = Inr (if U = {} then None else Some (sorted_list_of_set U)) \<and>
                 sorted (sorted_list_of_set U) \<and> distinct (sorted_list_of_set U) \<and>
                 set (sorted_list_of_set U) = U \<and>
                 {h \<in> set hs. weekday h = 4 \<and> s \<le> h \<and> h \<le> e} \<subseteq> U"
proof (cases "s \<le> e \<and> (s = 1 \<or> e = MAXORDINAL)")
  case True
  with assms have "valid_dates_of s e hs = Inl OverflowError"
    by (simp add: valid_dates_of_overflow)
  with True show ?thesis
    by (simp add: main_def)
next
  case False
  let ?U = "rule_A s e (set hs) \<union> rule_B s e (set hs)"
  from False assms have "e < s \<or> (1 < s \<and> e < MAXORDINAL)"
    by (auto simp: valid_date_def)
  then have v: "valid_dates_of s e hs = Inr ?U"
    by (rule valid_dates_of_returns)
  then have m: "main s e hs = Inr (if ?U = {} then None else Some (sorted_list_of_set ?U))"
    by (simp add: main_def)
  have u: "set (sorted_list_of_set ?U) = ?U"
    using finite_rules by (rule set_sorted_list_of_set)
  have b: "{h \<in> set hs. weekday h = 4 \<and> s \<le> h \<and> h \<le> e} \<subseteq> ?U"
    by (auto simp: rule_B_def)
  from False v m u b show ?thesis
    unfolding Let_def
    by (simp only: sorted_sorted_list_of_set distinct_sorted_list_of_set simp_thms if_False)
qed

theorem skip_days_union_witness:
  "valid_date (ymd2ord 2025 12 24) \<and> valid_date (ymd2ord 2025 12 27) \<and>
   rule_A (ymd2ord 2025 12 24) (ymd2ord 2025 12 27) (set [ymd2ord 2025 12 25])
     \<union> rule_B (ymd2ord 2025 12 24) (ymd2ord 2025 12 27) (set [ymd2ord 2025 12 25])
     = {ymd2ord 2025 12 26} \<and>
   main (ymd2ord 2025 12 24) (ymd2ord 2025 12 27) [ymd2ord 2025 12 25]
     = Inr (Some [ymd2ord 2025 12 26])"
proof -
  have r: "\<not> (ymd2ord 2025 12 24 \<le> ymd2ord 2025 12 27 \<and>
              (ymd2ord 2025 12 24 = 1 \<or> ymd2ord 2025 12 27 = MAXORDINAL))"
    by (simp add: dates_2025 MAXORDINAL_def)
  let ?U = "rule_A (ymd2ord 2025 12 24) (ymd2ord 2025 12 27) (set [ymd2ord 2025 12 25])
     \<union> rule_B (ymd2ord 2025 12 24) (ymd2ord 2025 12 27) (set [ymd2ord 2025 12 25])"
  from skip_days_union [OF valid_dates_2025(4,5), of "[ymd2ord 2025 12 25]"] r
  have u: "valid_dates_of (ymd2ord 2025 12 24) (ymd2ord 2025 12 27) [ymd2ord 2025 12 25] = Inr ?U"
    and m: "main (ymd2ord 2025 12 24) (ymd2ord 2025 12 27) [ymd2ord 2025 12 25]
              = Inr (if ?U = {} then None else Some (sorted_list_of_set ?U))"
    by (simp_all only: Let_def if_False)
  from u have U: "?U = {ymd2ord 2025 12 26}"
    by (simp only: boxing_day_2025 sum.inject)
  from m have "main (ymd2ord 2025 12 24) (ymd2ord 2025 12 27) [ymd2ord 2025 12 25]
              = Inr (Some [ymd2ord 2025 12 26])"
    unfolding U by simp
  with U valid_dates_2025(4,5) show ?thesis
    by (simp only: simp_thms)
qed

text \<open>
  C2 as stated fails when the range starts on the first representable date: the loop
  computes the day before it.
\<close>

theorem skip_days_first_day_counterexample:
  "valid_date (ymd2ord 1 1 1) \<and> valid_date (ymd2ord 1 1 2) \<and>
   main (ymd2ord 1 1 1) (ymd2ord 1 1 2) [] = Inl OverflowError"
proof -
  have v: "valid_date 1" "valid_date 2"
    by (simp_all add: valid_date_def MAXORDINAL_def)
  then have "valid_dates_of 1 2 [] = Inl OverflowError"
    by (simp add: valid_dates_of_overflow)
  with v show ?thesis
    by (simp add: main_def first_and_last_day)
qed

lemma thanksgiving_week:
  "valid_dates_of (ymd2ord 2025 11 24) (ymd2ord 2025 12 5) [ymd2ord 2025 11 28]
     = Inr {ymd2ord 2025 11 28}"
  using single_holiday [of "ymd2ord 2025 12 5" "ymd2ord 2025 11 24" "ymd2ord 2025 11 28"]
  by (simp add: weekdays_2025) (simp add: dates_2025 MAXORDINAL_def)

text \<open>
  C3 (as amended). With the single holiday 2025-11-28, a Friday, and a range that covers
  that week (Monday 2025-11-24 to Sunday 2025-11-30) without touching the first or the
  last representable date, the result is exactly 2025-11-28, added by Rule B. Rule A adds
  nothing: the only date whose previous day is the holiday is Saturday 2025-11-29, which
  the weekend test excludes, and the previous day of Monday 2025-12-01 is Sunday
  2025-11-30, which is not a holiday. So 2025-12-01 is not in the result.
\<close>

theorem friday_holiday_only:
  assumes "1 < s" and "e < MAXORDINAL"
    and "s \<le> ymd2ord 2025 11 24" and "ymd2ord 2025 11 30 \<le> e"
  shows "valid_dates_of s e [ymd2ord 2025 11 28] = Inr {ymd2ord 2025 11 28} \<and>
         main s e [ymd2ord 2025 11 28] = Inr (Some [ymd2ord 2025 11 28]) \<and>
         ymd2ord 2025 12 1 \<notin> {ymd2ord 2025 11 28}"
proof -
  from assms(3,4) have "s \<le> ymd2ord 2025 11 28" "ymd2ord 2025 11 28 \<le> e"
    by (simp_all add: dates_2025)
  with single_holiday [of e s "ymd2ord 2025 11 28"] assms(1,2)
  have "valid_dates_of s e [ymd2ord 2025 11 28] = Inr {ymd2ord 2025 11 28}"
    by (simp add: weekdays_2025)
  then show ?thesis
    by (simp add: main_def dates_2025)
qed

theorem friday_holiday_only_witness:
  "1 < ymd2ord 2025 11 24 \<and> ymd2ord 2025 12 5 < MAXORDINAL \<and>
   ymd2ord 2025 11 30 \<le> ymd2ord 2025 12 5 \<and>
   main (ymd2ord 2025 11 24) (ymd2ord 2025 12 5) [ymd2ord 2025 11 28]
     = Inr (Some [ymd2ord 2025 11 28])"
proof -
  have h: "1 < ymd2ord 2025 11 24" "ymd2ord 2025 12 5 < MAXORDINAL"
    "ymd2ord 2025 11 24 \<le> ymd2ord 2025 11 24" "ymd2ord 2025 11 30 \<le> ymd2ord 2025 12 5"
    by (simp_all add: dates_2025 MAXORDINAL_def)
  from friday_holiday_only [OF h] h show ?thesis
    by simp
qed

text \<open>
  C3 as stated fails on its own example range, 2025-11-24 to 2025-12-05: the result
  contains 2025-11-28 and does not contain 2025-12-01.
\<close>

theorem monday_after_friday_holiday_counterexample:
  "valid_dates_of (ymd2ord 2025 11 24) (ymd2ord 2025 12 5) [ymd2ord 2025 11 28]
     = Inr {ymd2ord 2025 11 28} \<and>
   main (ymd2ord 2025 11 24) (ymd2ord 2025 12 5) [ymd2ord 2025 11 28]
     = Inr (Some [ymd2ord 2025 11 28]) \<and>
   ymd2ord 2025 12 1 \<noteq> ymd2ord 2025 11 28 \<and>
   weekday (ymd2ord 2025 11 28) = 4 \<and> weekday (ymd2ord 2025 12 1) = 0"
  by (simp add: main_def thanksgiving_week weekdays_2025) (simp add: dates_2025)

text \<open>
  C7. For every holiday set and every pair of dates with \<open>e < s\<close>, the generator ends
  normally with the empty set (and writes nothing); it does not raise.
\<close>

theorem reversed_range_empty:
  assumes "e < s"
  shows "valid_dates_of s e hs = Inr {} \<and> main s e hs = Inr None \<and>
         (\<forall>err. valid_dates_of s e hs \<noteq> Inl err \<and> main s e hs \<noteq> Inl err)"
proof -
  from assms have "scan_range s e hs {} = Inr {}"
    by (simp add: scan_range.simps [of s e])
  moreover from assms have "friday_holidays hs s e {} = {}"
    by (auto simp: friday_holidays_eq)
  ultimately have "valid_dates_of s e hs = Inr {}"
    by (simp add: valid_dates_of_def)
  then show ?thesis
    by (simp add: main_def)
qed

theorem reversed_range_empty_witness:
  "ymd2ord 2025 12 20 < ymd2ord 2025 12 24 \<and>
   main (ymd2ord 2025 12 24) (ymd2ord 2025 12 20) [ymd2ord 2025 12 25] = Inr None"
proof -
  have h: "ymd2ord 2025 12 20 < ymd2ord 2025 12 24"
    by (simp add: dates_2025)
  from reversed_range_empty [OF h] h show ?thesis
    by simp
qed

text \<open>
  C9. Whatever the start date, the end date and the holidays: every date of the result
  (the set \<open>valid_dates\<close>, and the sorted list that \<open>main\<close> writes) lies within
  \<open>[s, e]\<close> and is a Monday, Tuesday, Wednesday, Thursday or Friday.
\<close>

theorem skip_days_in_range_on_workdays:
  "(valid_dates_of s e hs = Inr vd \<longrightarrow>
      (\<forall>d \<in> vd. s \<le> d \<and> d \<le> e \<and> weekday d \<in> {0, 1, 2, 3, 4})) \<and>
   (main s e hs = Inr (Some ds) \<longrightarrow>
      (\<forall>d \<in> set ds. s \<le> d \<and> d \<le> e \<and> weekday d \<in> {0, 1, 2, 3, 4}))"
proof -
  have a: "\<forall>d \<in> vd. s \<le> d \<and> d \<le> e \<and> weekday d \<in> {0, 1, 2, 3, 4}"
    if "valid_dates_of s e hs = Inr vd" for vd
    using valid_dates_of_Inr [OF that] by (auto simp: rule_A_def rule_B_def)
  have "\<forall>d \<in> set ds. s \<le> d \<and> d \<le> e \<and> weekday d \<in> {0, 1, 2, 3, 4}"
    if m: "main s e hs = Inr (Some ds)"
  proof -
    from m obtain vd where vd: "valid_dates_of s e hs = Inr vd" and ds: "ds = sorted_list_of_set vd"
      by (auto simp: main_def split: sum.splits if_splits)
    have "finite vd"
      unfolding valid_dates_of_Inr [OF vd] by (rule finite_rules)
    with ds have "set ds = vd" by simp
    with a [OF vd] show ?thesis by simp
  qed
  with a show ?thesis by blast
qed

theorem skip_days_in_range_on_workdays_witness:
  "main (ymd2ord 2025 12 24) (ymd2ord 2025 12 27) [ymd2ord 2025 12 25]
     = Inr (Some [ymd2ord 2025 12 26]) \<and>
   ymd2ord 2025 12 24 \<le> ymd2ord 2025 12 26 \<and> ymd2ord 2025 12 26 \<le> ymd2ord 2025 12 27 \<and>
   weekday (ymd2ord 2025 12 26) \<in> {0, 1, 2, 3, 4}"
proof -
  have m: "main (ymd2ord 2025 12 24) (ymd2ord 2025 12 27) [ymd2ord 2025 12 25]
     = Inr (Some [ymd2ord 2025 12 26])"
    by (simp add: main_def boxing_day_2025)
  from skip_days_in_range_on_workdays
    [of "ymd2ord 2025 12 24" "ymd2ord 2025 12 27" "[ymd2ord 2025 12 25]" "{ymd2ord 2025 12 26}"
        "[ymd2ord 2025 12 26]"] m
  show ?thesis
    by simp
qed


section \<open>Properties of the tape-label extractor\<close>

lemma tier_names_codes:
  "TIER_NAMES = [[68, 97, 105, 108, 121], [87, 101, 101, 107, 108, 121],
                 [77, 111, 110, 116, 104, 108, 121], [89, 101, 97, 114, 108, 121]]"
  by (simp add: TIER_NAMES_def str_def)

lemma tier_name_first:
  assumes "n1 \<in> set TIER_NAMES" and "n2 \<in> set TIER_NAMES"
    and "take (length n1) s = n1" and "take (length n2) s = n2"
  shows "n1 = n2"
proof (cases s)
  case Nil
  with assms show ?thesis by simp
next
  case (Cons c cs)
  with assms(1,3) have "hd n1 = c"
    by (auto simp: tier_names_codes)
  moreover from Cons assms(2,4) have "hd n2 = c"
    by (auto simp: tier_names_codes)
  ultimately show ?thesis
    using assms(1,2) by (auto simp: tier_names_codes)
qed

lemma match_tier_Some:
  "match_tier nd name s = Some m \<longleftrightarrow>
     take (length name) s = name \<and> takeWhile (is_digit nd) (drop (length name) s) \<noteq> [] \<and>
     m = name @ takeWhile (is_digit nd) (drop (length name) s)"
  by (auto simp: match_tier_def match_digits_def Let_def)

lemma match_tier_None:
  "match_tier nd name s = None \<longleftrightarrow>
     take (length name) s \<noteq> name \<or> takeWhile (is_digit nd) (drop (length name) s) = []"
  by (auto simp: match_tier_def match_digits_def Let_def)

lemma match_alternatives_Some:
  "match_alternatives nd names s = Some m \<Longrightarrow> \<exists>name \<in> set names. match_tier nd name s = Some m"
  by (induction names) (auto split: option.splits)

lemma match_alternatives_None:
  "match_alternatives nd names s = None \<longleftrightarrow> (\<forall>name \<in> set names. match_tier nd name s = None)"
  by (induction names) (auto split: option.splits)

lemma label_prefix_digits:
  assumes "take (length name) v = name"
    and "drop (length name) v \<noteq> []" and "list_all (is_digit nd) (drop (length name) v)"
    and "take (length v) s = v"
  shows "take (length name) s = name"
    and "takeWhile (is_digit nd) (drop (length name) s) \<noteq> []"
    and "length v \<le> length (name @ takeWhile (is_digit nd) (drop (length name) s))"
proof -
  define ds where "ds = drop (length name) v"
  define r where "r = drop (length v) s"
  have v: "v = name @ ds"
    unfolding ds_def using assms(1) by (metis append_take_drop_id)
  have s: "s = v @ r"
    unfolding r_def using assms(4) by (metis append_take_drop_id)
  have s': "s = name @ ds @ r"
    by (simp add: s v)
  show "take (length name) s = name"
    by (simp add: s')
  have d: "drop (length name) s = ds @ r"
    by (simp add: s')
  from assms(3) have "\<forall>x \<in> set ds. is_digit nd x"
    by (simp add: list_all_iff ds_def)
  then have tw: "takeWhile (is_digit nd) (ds @ r) = ds @ takeWhile (is_digit nd) r"
    by (simp add: takeWhile_append2)
  from assms(2) have "ds \<noteq> []"
    by (simp add: ds_def)
  then show "takeWhile (is_digit nd) (drop (length name) s) \<noteq> []"
    by (simp add: d tw)
  show "length v \<le> length (name @ takeWhile (is_digit nd) (drop (length name) s))"
    by (simp add: d tw v)
qed

lemma match_tier_is_label:
  assumes "name \<in> set TIER_NAMES" and "match_tier nd name s = Some m"
  shows "tape_label nd m" and "take (length m) s = m"
proof -
  define ds where "ds = takeWhile (is_digit nd) (drop (length name) s)"
  from assms(2) have n: "take (length name) s = name" and ds: "ds \<noteq> []" and m: "m = name @ ds"
    by (simp_all add: match_tier_Some ds_def)
  have "list_all (is_digit nd) ds"
    unfolding ds_def list_all_iff by (meson set_takeWhileD)
  with ds have "take (length name) m = name \<and> drop (length name) m \<noteq> [] \<and>
      list_all (is_digit nd) (drop (length name) m)"
    by (simp add: m)
  with assms(1) show "tape_label nd m"
    unfolding tape_label_def by blast
  have "s = name @ drop (length name) s"
    using n by (metis append_take_drop_id)
  moreover have "drop (length name) s = ds @ dropWhile (is_digit nd) (drop (length name) s)"
    by (simp add: ds_def)
  ultimately have "s = m @ dropWhile (is_digit nd) (drop (length name) s)"
    using m by (metis append.assoc)
  then show "take (length m) s = m"
    by (metis append_eq_conv_conj)
qed

lemma match_here_None:
  "match_alternatives nd TIER_NAMES s = None \<longleftrightarrow>
     \<not> (\<exists>v. tape_label nd v \<and> take (length v) s = v)"
proof
  assume none: "match_alternatives nd TIER_NAMES s = None"
  show "\<not> (\<exists>v. tape_label nd v \<and> take (length v) s = v)"
  proof
    assume "\<exists>v. tape_label nd v \<and> take (length v) s = v"
    then obtain v name where v: "take (length v) s = v" and name: "name \<in> set TIER_NAMES"
      and l: "take (length name) v = name" "drop (length name) v \<noteq> []"
        "list_all (is_digit nd) (drop (length name) v)"
      by (auto simp: tape_label_def)
    from label_prefix_digits(1,2) [OF l v]
    have "match_tier nd name s \<noteq> None"
      by (simp add: match_tier_None)
    with none name show False
      by (simp add: match_alternatives_None)
  qed
next
  assume no: "\<not> (\<exists>v. tape_label nd v \<and> take (length v) s = v)"
  show "match_alternatives nd TIER_NAMES s = None"
  proof (rule ccontr)
    assume "match_alternatives nd TIER_NAMES s \<noteq> None"
    then obtain m where "match_alternatives nd TIER_NAMES s = Some m" by auto
    then obtain name where "name \<in> set TIER_NAMES" "match_tier nd name s = Some m"
      by (blast dest: match_alternatives_Some)
    then have "tape_label nd m \<and> take (length m) s = m"
      by (simp add: match_tier_is_label)
    with no show False by blast
  qed
qed

lemma match_here_Some:
  assumes "match_alternatives nd TIER_NAMES s = Some m"
  shows "tape_label nd m" and "take (length m) s = m"
    and "\<And>v. tape_label nd v \<Longrightarrow> take (length v) s = v \<Longrightarrow> length v \<le> length m"
proof -
  from assms obtain name where name: "name \<in> set TIER_NAMES" and mt: "match_tier nd name s = Some m"
    by (blast dest: match_alternatives_Some)
  then show "tape_label nd m" and "take (length m) s = m"
    by (simp_all add: match_tier_is_label)
  fix v assume "tape_label nd v" and v: "take (length v) s = v"
  then obtain name' where name': "name' \<in> set TIER_NAMES"
      and l: "take (length name') v = name'" "drop (length name') v \<noteq> []"
        "list_all (is_digit nd) (drop (length name') v)"
    by (auto simp: tape_label_def)
  note p = label_prefix_digits [OF l v]
  from mt have "take (length name) s = name"
    by (simp add: match_tier_Some)
  with p(1) name name' have "name' = name"
    by (blast intro: tier_name_first)
  with p(3) mt show "length v \<le> length m"
    by (simp add: match_tier_Some)
qed

lemma re_search_None:
  "re_search nd s = None \<longleftrightarrow>
     (\<forall>i \<le> length s. match_alternatives nd TIER_NAMES (drop i s) = None)"
proof (induction s)
  case Nil
  show ?case by simp
next
  case (Cons c cs)
  have "(\<forall>i \<le> length (c # cs). match_alternatives nd TIER_NAMES (drop i (c # cs)) = None) \<longleftrightarrow>
        match_alternatives nd TIER_NAMES (c # cs) = None \<and>
        (\<forall>i \<le> length cs. match_alternatives nd TIER_NAMES (drop i cs) = None)"
    (is "?L \<longleftrightarrow> ?H \<and> ?T")
  proof
    assume l: ?L
    from l have ?H by (metis drop0 le0)
    moreover have ?T
    proof (intro allI impI)
      fix i assume "i \<le> length cs"
      with l have "match_alternatives nd TIER_NAMES (drop (Suc i) (c # cs)) = None"
        by (metis Suc_le_mono length_Cons)
      then show "match_alternatives nd TIER_NAMES (drop i cs) = None" by simp
    qed
    ultimately show "?H \<and> ?T" ..
  next
    assume ht: "?H \<and> ?T"
    show ?L
    proof (intro allI impI)
      fix i assume i: "i \<le> length (c # cs)"
      show "match_alternatives nd TIER_NAMES (drop i (c # cs)) = None"
      proof (cases i)
        case 0
        with ht show ?thesis by simp
      next
        case (Suc k)
        with i ht show ?thesis by simp
      qed
    qed
  qed
  with Cons.IH show ?case
    by (simp split: option.splits)
qed

lemma re_search_Some:
  "re_search nd s = Some m \<Longrightarrow>
     \<exists>i \<le> length s. match_alternatives nd TIER_NAMES (drop i s) = Some m \<and>
       (\<forall>j < i. match_alternatives nd TIER_NAMES (drop j s) = None)"
proof (induction s)
  case Nil
  then show ?case by simp
next
  case (Cons c cs)
  show ?case
  proof (cases "match_alternatives nd TIER_NAMES (c # cs)")
    case (Some m')
    with Cons.prems have "match_alternatives nd TIER_NAMES (drop 0 (c # cs)) = Some m"
      by simp
    then show ?thesis by blast
  next
    case None
    with Cons.prems have "re_search nd cs = Some m" by simp
    from Cons.IH [OF this] obtain i where i: "i \<le> length cs"
      "match_alternatives nd TIER_NAMES (drop i cs) = Some m"
      "\<forall>j < i. match_alternatives nd TIER_NAMES (drop j cs) = None"
      by blast
    have "\<forall>j < Suc i. match_alternatives nd TIER_NAMES (drop j (c # cs)) = None"
    proof (intro allI impI)
      fix j assume "j < Suc i"
      with i(3) None show "match_alternatives nd TIER_NAMES (drop j (c # cs)) = None"
        by (cases j) simp_all
    qed
    with i(1,2) have "Suc i \<le> length (c # cs) \<and>
        match_alternatives nd TIER_NAMES (drop (Suc i) (c # cs)) = Some m \<and>
        (\<forall>j < Suc i. match_alternatives nd TIER_NAMES (drop j (c # cs)) = None)"
      by simp
    then show ?thesis by blast
  qed
qed

lemma take_eq_length:
  assumes "take (length w) xs = w"
  shows "length w \<le> length xs"
proof -
  have "length (take (length w) xs) \<le> length xs" by simp
  then show ?thesis by (simp only: assms)
qed

lemma occurs_at_prefix:
  "occurs_at w s i \<Longrightarrow> i \<le> length s \<and> take (length w) (drop i s) = w"
  by (simp add: occurs_at_def)

lemma prefix_occurs_at:
  assumes "i \<le> length s" and "take (length w) (drop i s) = w"
  shows "occurs_at w s i"
proof -
  from assms(2) have "length w \<le> length (drop i s)"
    by (rule take_eq_length)
  with assms show ?thesis
    by (simp add: occurs_at_def)
qed

lemma no_label_without_name:
  assumes "tape_label nd w" and "occurs_at w s i"
  shows "\<exists>name \<in> set TIER_NAMES. occurs_at name s i"
proof -
  from assms(1) obtain name where name: "name \<in> set TIER_NAMES"
      and l: "take (length name) w = name"
    by (auto simp: tape_label_def)
  from assms(2) have i: "i \<le> length s" and w: "take (length w) (drop i s) = w"
    by (simp_all add: occurs_at_def)
  from l have "length name \<le> length w"
    by (rule take_eq_length)
  then have "take (length name) (drop i s) = take (length name) (take (length w) (drop i s))"
    by (simp add: min_def)
  with w l have "take (length name) (drop i s) = name" by simp
  with i have "occurs_at name s i" by (rule prefix_occurs_at)
  with name show ?thesis by blast
qed

lemma extract_None_iff:
  "extract_tape_label nd s = None \<longleftrightarrow> \<not> (\<exists>i w. tape_label nd w \<and> occurs_at w s i)"
proof -
  have "extract_tape_label nd s = None \<longleftrightarrow> re_search nd s = None"
    by (simp add: extract_tape_label_def split: option.splits)
  also have "\<dots> \<longleftrightarrow> (\<forall>i \<le> length s. \<not> (\<exists>v. tape_label nd v \<and> take (length v) (drop i s) = v))"
    by (simp only: re_search_None match_here_None)
  also have "\<dots> \<longleftrightarrow> \<not> (\<exists>i w. tape_label nd w \<and> occurs_at w s i)"
    by (meson occurs_at_prefix prefix_occurs_at)
  finally show ?thesis .
qed

lemma extract_Some:
  assumes "extract_tape_label nd s = Some w"
  shows "tape_label nd w \<and>
         (\<exists>i. occurs_at w s i \<and>
              (\<forall>j v. j < i \<and> tape_label nd v \<longrightarrow> \<not> occurs_at v s j) \<and>
              (\<forall>v. tape_label nd v \<and> occurs_at v s i \<longrightarrow> length v \<le> length w))"
proof -
  from assms have "re_search nd s = Some w"
    by (simp add: extract_tape_label_def split: option.splits)
  from re_search_Some [OF this] obtain i where i: "i \<le> length s"
    and m: "match_alternatives nd TIER_NAMES (drop i s) = Some w"
    and before: "\<forall>j < i. match_alternatives nd TIER_NAMES (drop j s) = None"
    by blast
  note h = match_here_Some [OF m]
  from i h(2) have o: "occurs_at w s i" by (rule prefix_occurs_at)
  have b: "\<forall>j v. j < i \<and> tape_label nd v \<longrightarrow> \<not> occurs_at v s j"
  proof (intro allI impI notI)
    fix j v assume "j < i \<and> tape_label nd v" and "occurs_at v s j"
    with before have "match_alternatives nd TIER_NAMES (drop j s) = None"
      and "tape_label nd v \<and> take (length v) (drop j s) = v"
      by (simp_all add: occurs_at_def)
    then show False by (simp only: match_here_None) blast
  qed
  have l: "\<forall>v. tape_label nd v \<and> occurs_at v s i \<longrightarrow> length v \<le> length w"
    using h(3) by (simp add: occurs_at_def)
  from h(1) o b l show ?thesis by blast
qed

lemma daily013:
  "extract_tape_label nd (str ''The next Volume to be used is Daily013'') = Some (str ''Daily013'')"
  by (simp add: extract_tape_label_def str_def TIER_NAMES_def match_tier_def match_digits_def
      is_digit_def)

text \<open>
  C8. For every status line, the extractor returns nothing exactly when no substring of
  the line is a tier name (\<open>Daily\<close>, \<open>Weekly\<close>, \<open>Monthly\<close>, \<open>Yearly\<close>, spelled so)
  immediately followed by one or more digits. When it returns \<open>w\<close>, then \<open>w\<close> is such a
  substring, it starts at the leftmost index at which any such substring starts, and it
  is the longest one starting there (the digits are matched greedily). A line in which no
  tier name occurs gives nothing, and
  \<open>The next Volume to be used is Daily013\<close> gives \<open>Daily013\<close>.
\<close>

theorem extract_leftmost_label:
  "(extract_tape_label nd s = None \<longleftrightarrow> \<not> (\<exists>i w. tape_label nd w \<and> occurs_at w s i)) \<and>
   (\<forall>w. extract_tape_label nd s = Some w \<longrightarrow>
      tape_label nd w \<and>
      (\<exists>i. occurs_at w s i \<and>
           (\<forall>j v. j < i \<and> tape_label nd v \<longrightarrow> \<not> occurs_at v s j) \<and>
           (\<forall>v. tape_label nd v \<and> occurs_at v s i \<longrightarrow> length v \<le> length w))) \<and>
   ((\<forall>name \<in> set TIER_NAMES. \<forall>i. \<not> occurs_at name s i) \<longrightarrow> extract_tape_label nd s = None) \<and>
   extract_tape_label nd (str ''The next Volume to be used is Daily013'') = Some (str ''Daily013'')"
proof -
  have "extract_tape_label nd s = None" if "\<forall>name \<in> set TIER_NAMES. \<forall>i. \<not> occurs_at name s i"
    unfolding extract_None_iff using that no_label_without_name by blast
  then show ?thesis
    using extract_None_iff extract_Some daily013 by blast
qed

lemma occurs_at_hd:
  assumes "occurs_at name s i" and "name \<noteq> []"
  shows "hd name \<in> set s"
proof -
  from assms(1) have "take (length name) (drop i s) = name"
    by (simp add: occurs_at_def)
  with assms(2) have "hd name \<in> set (take (length name) (drop i s))"
    by simp
  then show ?thesis
    by (meson in_set_dropD in_set_takeD)
qed

theorem extract_leftmost_label_witness:
  "extract_tape_label (\<lambda>_. False) (str ''Weekly005 or Daily013'') = Some (str ''Weekly005'') \<and>
   tape_label (\<lambda>_. False) (str ''Weekly005'') \<and>
   (\<exists>i. occurs_at (str ''Weekly005'') (str ''Weekly005 or Daily013'') i) \<and>
   extract_tape_label (\<lambda>_. False) (str ''no tape'') = None"
proof -
  have e: "extract_tape_label (\<lambda>_. False) (str ''Weekly005 or Daily013'') = Some (str ''Weekly005'')"
    by (simp add: extract_tape_label_def str_def TIER_NAMES_def match_tier_def match_digits_def
        is_digit_def)
  have n: "\<forall>name \<in> set TIER_NAMES. \<forall>i. \<not> occurs_at name (str ''no tape'') i"
  proof (intro ballI allI notI)
    fix name i assume name: "name \<in> set TIER_NAMES" and "occurs_at name (str ''no tape'') i"
    moreover from name have "name \<noteq> []"
      by (auto simp: tier_names_codes)
    ultimately have "hd name \<in> set (str ''no tape'')"
      by (simp add: occurs_at_hd)
    with name show False
      by (auto simp: tier_names_codes str_def)
  qed
  from extract_leftmost_label [of "\<lambda>_. False" "str ''Weekly005 or Daily013''"] e
  have "tape_label (\<lambda>_. False) (str ''Weekly005'') \<and>
        (\<exists>i. occurs_at (str ''Weekly005'') (str ''Weekly005 or Daily013'') i)"
    by blast
  moreover from extract_leftmost_label [of "\<lambda>_. False" "str ''no tape''"] n
  have "extract_tape_label (\<lambda>_. False) (str ''no tape'') = None"
    by blast
  ultimately show ?thesis
    using e by blast
qed

text \<open>
  C10. The pattern is not anchored at word boundaries: on a line in which the token
  \<open>BiWeekly005\<close> occurs, the extractor returns the embedded \<open>Weekly005\<close>.
\<close>

theorem extract_embedded_label:
  "extract_tape_label nd (str ''The next Volume to be used is BiWeekly005'') = Some (str ''Weekly005'') \<and>
   extract_tape_label nd (str ''BiWeekly005'') = Some (str ''Weekly005'')"
  by (simp add: extract_tape_label_def str_def TIER_NAMES_def match_tier_def match_digits_def
      is_digit_def)

end
